theory Spec2Isabelle
  imports Complex_Main "HOL-Library.Word"
begin

section \<open>JavaScript values used by the chunker\<close>

text \<open>
  A JavaScript string is a sequence of UTF-16 code units and \<open>.length\<close> counts code
  units, so a string is a list of 16-bit words. \<open>ascii\<close> writes a literal.
\<close>

type_synonym jschar = "16 word"
type_synonym jsstring = "jschar list"

definition ascii :: "string \<Rightarrow> jsstring" where
  "ascii s = map of_char s"

text \<open>
  \<open>chunkSize\<close> has the TypeScript type \<open>number\<close>: a finite value, \<open>NaN\<close> or an
  infinity. The finite doubles are a subset of the reals; the chunker only compares the
  number with an integer and truncates it to an index, both of which are exact.
\<close>

datatype jsnumber = Num real | NaN | PosInf | NegInf

text \<open>\<open>n > x\<close> for an integer-valued left operand: every comparison with \<open>NaN\<close> is false.\<close>

fun js_gt :: "nat \<Rightarrow> jsnumber \<Rightarrow> bool" where
  "js_gt n (Num r) = (real n > r)"
| "js_gt n NaN = False"
| "js_gt n PosInf = False"
| "js_gt n NegInf = True"

text \<open>
  The end index of \<open>String.prototype.substring\<close>: \<open>NaN\<close> becomes 0, the value is
  truncated towards zero and clamped to \<open>[0, len]\<close>.
\<close>

fun clampIndex :: "jsnumber \<Rightarrow> nat \<Rightarrow> nat" where
  "clampIndex (Num r) len = min (nat \<lfloor>r\<rfloor>) len"
| "clampIndex NaN len = 0"
| "clampIndex PosInf len = len"
| "clampIndex NegInf len = 0"

definition substring0 :: "jsstring \<Rightarrow> jsnumber \<Rightarrow> jsstring" where
  "substring0 text end = take (clampIndex end (length text)) text"

text \<open>
  \<open>String.prototype.trim\<close> strips WhiteSpace and LineTerminator code units from both ends.
\<close>

definition isWhiteSpace :: "jschar \<Rightarrow> bool" where
  "isWhiteSpace c \<longleftrightarrow>
     c = 0x9 \<or> c = 0xA \<or> c = 0xB \<or> c = 0xC \<or> c = 0xD \<or> c = 0x20 \<or> c = 0xA0 \<or>
     c = 0x1680 \<or> (0x2000 \<le> c \<and> c \<le> 0x200A) \<or> c = 0x2028 \<or> c = 0x2029 \<or>
     c = 0x202F \<or> c = 0x205F \<or> c = 0x3000 \<or> c = 0xFEFF"

definition trim :: "jsstring \<Rightarrow> jsstring" where
  "trim s = rev (dropWhile isWhiteSpace (rev (dropWhile isWhiteSpace s)))"

section \<open>Sentence segmentation: \<open>text.split(/[.!?]+/)\<close>\<close>

definition isDelim :: "jschar \<Rightarrow> bool" where
  "isDelim c \<longleftrightarrow> c = 0x2E \<or> c = 0x21 \<or> c = 0x3F"

text \<open>
  The split loop walks the string. At a delimiter the greedy \<open>+\<close> consumes the whole run of
  delimiters, the fragment read so far is pushed and a new one starts after the run; at the
  end of the string the last fragment is pushed, also when it is empty.
\<close>

function splitLoop :: "jsstring \<Rightarrow> jsstring \<Rightarrow> jsstring list" where
  "splitLoop frag [] = [frag]"
| "splitLoop frag (c # cs) =
     (if isDelim c then frag # splitLoop [] (dropWhile isDelim cs)
      else splitLoop (frag @ [c]) cs)"
  by pat_completeness auto
termination
  by (relation "measure (\<lambda>(frag, cs). length cs)")
     (auto simp: length_dropWhile_le less_Suc_eq_le)

definition split :: "jsstring \<Rightarrow> jsstring list" where
  "split text = splitLoop [] text"

definition sentences :: "jsstring \<Rightarrow> jsstring list" where
  "sentences text = filter (\<lambda>s. length (trim s) > 0) (split text)"

section \<open>The chunk builder (first loop of \<open>chunkText\<close>)\<close>

definition sep :: jsstring where
  "sep = ascii ''. ''"

fun buildLoop :: "jsnumber \<Rightarrow> jsstring list \<Rightarrow> jsstring list \<times> jsstring \<Rightarrow> jsstring list \<times> jsstring" where
  "buildLoop chunkSize [] st = st"
| "buildLoop chunkSize (sentence # rest) (chunks, currentChunk) =
     (let trimmedSentence = trim sentence in
      if length trimmedSentence = 0 then buildLoop chunkSize rest (chunks, currentChunk)
      else if js_gt (length currentChunk + length trimmedSentence) chunkSize \<and> length currentChunk > 0
      then buildLoop chunkSize rest (chunks @ [trim currentChunk], trimmedSentence)
      else buildLoop chunkSize rest
             (chunks, currentChunk @ (if length currentChunk > 0 then sep else []) @ trimmedSentence))"

definition buildChunks :: "jsstring list \<Rightarrow> jsnumber \<Rightarrow> jsstring list" where
  "buildChunks sents chunkSize =
     (case buildLoop chunkSize sents ([], []) of
        (chunks, currentChunk) \<Rightarrow>
          if length (trim currentChunk) > 0 then chunks @ [trim currentChunk] else chunks)"

section \<open>The chunk merger (second loop of \<open>chunkText\<close>)\<close>

fun mergeLoop :: "jsstring list \<Rightarrow> jsstring list \<times> jsstring \<Rightarrow> jsstring list \<times> jsstring" where
  "mergeLoop [] st = st"
| "mergeLoop (chunk # rest) (mergedChunks, tempChunk) =
     (if length tempChunk + length chunk < 100 \<and> length tempChunk > 0
      then mergeLoop rest (mergedChunks, tempChunk @ sep @ chunk)
      else mergeLoop rest
             (if length tempChunk > 0 then mergedChunks @ [tempChunk] else mergedChunks, chunk))"

definition mergeChunks :: "jsstring list \<Rightarrow> jsstring list" where
  "mergeChunks chunks =
     (case mergeLoop chunks ([], []) of
        (mergedChunks, tempChunk) \<Rightarrow>
          if length tempChunk > 0 then mergedChunks @ [tempChunk] else mergedChunks)"

section \<open>\<open>chunkText\<close>\<close>

definition chunkText :: "jsstring \<Rightarrow> jsnumber \<Rightarrow> jsstring list" where
  "chunkText text chunkSize =
     (let mergedChunks = mergeChunks (buildChunks (sentences text) chunkSize)
      in if length mergedChunks > 0 then mergedChunks else [substring0 text chunkSize])"

text \<open>
  The only caller, \<open>processFile\<close>, passes no size, so the default of 500 applies.
\<close>

definition defaultChunkSize :: jsnumber where
  "defaultChunkSize = Num 500"

section \<open>The keyword fallback of the search service\<close>

text \<open>
  \<open>fallbackKeywordSearch\<close> asks the vector database for the chunks whose content is
  \<open>Like *query*\<close> and maps the answer to search results. The database is outside the
  program: it is a parameter, a function from the pattern and the limit to a response. The
  query fails (the \<open>try\<close> block catches it), or answers without the class
  (\<open>result.data?.Get?.[className]\<close> is missing), or answers with the matched items.
  An item is what the database returns for the requested fields.
\<close>

record raw_item =
  item_documentId :: jsstring
  item_content :: jsstring
  item_chunkIndex :: jsnumber
  item_documentName :: jsstring
  item_uploadedAt :: jsstring

record result_metadata =
  documentName :: jsstring
  uploadedAt :: jsstring

text \<open>
  \<open>score\<close> is a JavaScript number computed as \<open>1 - (index * 0.1)\<close>. It is modelled in
  exact real arithmetic with \<open>0.1 = 1/10\<close>; the rounding of IEEE doubles is not modelled.
\<close>

record search_result =
  documentId :: jsstring
  content :: jsstring
  score :: real
  chunkIndex :: jsnumber
  metadata :: result_metadata

datatype response = QueryFailed | NoData | Matches "raw_item list"

type_synonym client = "jsstring \<Rightarrow> jsnumber \<Rightarrow> response"

datatype error = ClientNotInitialized

definition toResult :: "raw_item \<Rightarrow> nat \<Rightarrow> search_result" where
  "toResult item index =
     \<lparr>documentId = item_documentId item,
      content = item_content item,
      score = 1 - (real index * (1 / 10)),
      chunkIndex = item_chunkIndex item,
      metadata = \<lparr>documentName = item_documentName item, uploadedAt = item_uploadedAt item\<rparr>\<rparr>"

text \<open>\<open>items.map((item, index) => ...)\<close>: the callback receives the zero-based position.\<close>

fun mapIndexed :: "nat \<Rightarrow> raw_item list \<Rightarrow> search_result list" where
  "mapIndexed index [] = []"
| "mapIndexed index (item # items) = toResult item index # mapIndexed (Suc index) items"

definition fallbackKeywordSearch :: "client option \<Rightarrow> jsstring \<Rightarrow> jsnumber \<Rightarrow> error + search_result list" where
  "fallbackKeywordSearch cl query limit =
     (case cl of
        None \<Rightarrow> Inl ClientNotInitialized
      | Some db \<Rightarrow>
          (case db (ascii ''*'' @ query @ ascii ''*'') limit of
             QueryFailed \<Rightarrow> Inr []
           | NoData \<Rightarrow> Inr []
           | Matches items \<Rightarrow> Inr (mapIndexed 0 items)))"

text \<open>Two concrete items for the examples.\<close>

definition item0 :: raw_item where
  "item0 = \<lparr>item_documentId = ascii ''doc-1'', item_content = ascii ''the cat sat'',
     item_chunkIndex = Num 0, item_documentName = ascii ''a.txt'', item_uploadedAt = ascii ''2024''\<rparr>"

definition item1 :: raw_item where
  "item1 = \<lparr>item_documentId = ascii ''doc-2'', item_content = ascii ''a dog and a cat'',
     item_chunkIndex = Num 3, item_documentName = ascii ''b.txt'', item_uploadedAt = ascii ''2025''\<rparr>"

section \<open>The merger as the specification words it\<close>

text \<open>
  The specification describes the merger with a minimum viable length \<open>M\<close> as a parameter
  and says that \<open>M\<close> stands in the fixed ratio 100/500 to the chunk size. These definitions
  follow those words; they are compared with \<open>mergeChunks\<close> and \<open>chunkText\<close> below.
\<close>

definition spec_mergeStep :: "real \<Rightarrow> jsstring list \<times> jsstring \<Rightarrow> jsstring \<Rightarrow> jsstring list \<times> jsstring" where
  "spec_mergeStep M st chunk =
     (case st of (final, temp) \<Rightarrow>
        if real (length temp + length chunk) < M \<and> temp \<noteq> [] then (final, temp @ sep @ chunk)
        else (if temp \<noteq> [] then final @ [temp] else final, chunk))"

definition spec_mergeChunks :: "real \<Rightarrow> jsstring list \<Rightarrow> jsstring list" where
  "spec_mergeChunks M chunks =
     (case foldl (spec_mergeStep M) ([], []) chunks of
        (final, temp) \<Rightarrow> if temp \<noteq> [] then final @ [temp] else final)"

definition spec_chunkText :: "real \<Rightarrow> jsstring \<Rightarrow> jsnumber \<Rightarrow> jsstring list" where
  "spec_chunkText M text chunkSize =
     (let final = spec_mergeChunks M (buildChunks (sentences text) chunkSize)
      in if final = [] then [substring0 text chunkSize] else final)"

definition spec_mergeThreshold :: "real \<Rightarrow> real" where
  "spec_mergeThreshold S = S * (100 / 500)"

section \<open>Notions used to state the properties\<close>

text \<open>
  A string is solid when it is not empty and neither starts nor ends with white space:
  \<open>trim\<close> leaves it alone. \<open>joinSentences\<close> joins fragments with the separator the
  builder and the merger inject. A group is a run of fragments that ends up in one chunk.
\<close>

definition solid :: "jsstring \<Rightarrow> bool" where
  "solid s \<longleftrightarrow> s \<noteq> [] \<and> \<not> isWhiteSpace (hd s) \<and> \<not> isWhiteSpace (last s)"

definition noDelim :: "jsstring \<Rightarrow> bool" where
  "noDelim s \<longleftrightarrow> (\<forall>c\<in>set s. \<not> isDelim c)"

fun joinSentences :: "jsstring list \<Rightarrow> jsstring" where
  "joinSentences [] = []"
| "joinSentences [s] = s"
| "joinSentences (s # t # ts) = s @ sep @ joinSentences (t # ts)"

definition fragments :: "jsstring list \<Rightarrow> jsstring list" where
  "fragments ss = filter (\<lambda>t. length t \<noteq> 0) (map trim ss)"

definition goodGroup :: "jsstring list \<Rightarrow> bool" where
  "goodGroup grp \<longleftrightarrow> grp \<noteq> [] \<and> (\<forall>s\<in>set grp. solid s)"

definition okGroup :: "jsnumber \<Rightarrow> jsstring list \<Rightarrow> bool" where
  "okGroup S grp \<longleftrightarrow>
     length grp = 1 \<or> (\<exists>n. length (joinSentences grp) = n + 2 \<and> \<not> js_gt n S)"

section \<open>Trimming and joining\<close>

lemma sep_eq: "sep = [0x2E, 0x20]"
  by (simp add: sep_def ascii_def)

lemma length_sep: "length sep = 2"
  by (simp add: sep_eq)

lemma trim_solid:
  assumes "trim s \<noteq> []"
  shows "solid (trim s)"
proof -
  define u where "u = dropWhile isWhiteSpace s"
  define v where "v = dropWhile isWhiteSpace (rev u)"
  have t: "trim s = rev v" by (simp add: trim_def u_def v_def)
  with assms have vne: "v \<noteq> []" by simp
  then have hv: "\<not> isWhiteSpace (hd v)" unfolding v_def by (rule hd_dropWhile)
  have une: "u \<noteq> []" using vne unfolding v_def by auto
  then have hu: "\<not> isWhiteSpace (hd u)" unfolding u_def by (rule hd_dropWhile)
  have "rev u = takeWhile isWhiteSpace (rev u) @ v"
    unfolding v_def by simp
  then have "last (rev u) = last v" using vne
    by (metis last_appendR)
  then have "last v = hd u" using une by (simp add: last_rev)
  with hu hv vne show ?thesis
    by (simp add: t solid_def hd_rev last_rev)
qed

lemma solid_trim: "solid s \<Longrightarrow> trim s = s"
proof -
  assume a: "solid s"
  then have "dropWhile isWhiteSpace s = s"
    by (cases s) (auto simp: solid_def)
  moreover from a have "dropWhile isWhiteSpace (rev s) = rev s"
    by (cases "rev s") (auto simp: solid_def hd_rev[symmetric] simp del: rev_is_Nil_conv)
  ultimately show ?thesis by (simp add: trim_def)
qed

lemma solid_append: "solid a \<Longrightarrow> solid b \<Longrightarrow> solid (a @ x @ b)"
  by (simp add: solid_def)

lemma joinSentences_snoc: "g \<noteq> [] \<Longrightarrow> joinSentences (g @ [t]) = joinSentences g @ sep @ t"
  by (induction g rule: joinSentences.induct) auto

lemma joinSentences_append:
  "g \<noteq> [] \<Longrightarrow> h \<noteq> [] \<Longrightarrow> joinSentences (g @ h) = joinSentences g @ sep @ joinSentences h"
proof (induction g rule: joinSentences.induct)
  case (2 s) then show ?case by (cases h) auto
qed auto

lemma solid_joinSentences:
  "g \<noteq> [] \<Longrightarrow> \<forall>s\<in>set g. solid s \<Longrightarrow> solid (joinSentences g)"
  by (induction g rule: joinSentences.induct) (auto intro: solid_append)

lemma joinSentences_Nil_iff:
  "\<forall>s\<in>set g. solid s \<Longrightarrow> joinSentences g = [] \<longleftrightarrow> g = []"
  using solid_joinSentences[of g] by (auto simp: solid_def)

section \<open>The builder groups consecutive fragments\<close>

lemma buildLoop_groups:
  assumes "\<forall>grp\<in>set gs. goodGroup grp \<and> okGroup S grp"
    and "\<forall>s\<in>set g. solid s" and "g = [] \<or> okGroup S g"
  shows "\<exists>gs' g'. buildLoop S ss (map joinSentences gs, joinSentences g) = (map joinSentences gs', joinSentences g')
           \<and> concat gs' @ g' = concat gs @ g @ fragments ss
           \<and> (\<forall>grp\<in>set gs'. goodGroup grp \<and> okGroup S grp)
           \<and> (\<forall>s\<in>set g'. solid s) \<and> (g' = [] \<or> okGroup S g')"
  using assms
proof (induction ss arbitrary: gs g)
  case Nil
  then show ?case by (auto simp: fragments_def)
next
  case (Cons sentence rest)
  let ?t = "trim sentence"
  show ?case
  proof (cases "length ?t = 0")
    case True
    then have "fragments (sentence # rest) = fragments rest" by (simp add: fragments_def)
    moreover have "buildLoop S (sentence # rest) (map joinSentences gs, joinSentences g)
        = buildLoop S rest (map joinSentences gs, joinSentences g)" using True by simp
    ultimately show ?thesis using Cons.IH[OF Cons.prems] by simp
  next
    case False
    then have st: "solid ?t" by (simp add: trim_solid)
    have fr: "fragments (sentence # rest) = ?t # fragments rest" using False by (simp add: fragments_def)
    show ?thesis
    proof (cases "js_gt (length (joinSentences g) + length ?t) S \<and> length (joinSentences g) > 0")
      case True
      then have gne: "g \<noteq> []" by auto
      with Cons.prems have gg: "goodGroup g" "okGroup S g" by (auto simp: goodGroup_def)
      then have "trim (joinSentences g) = joinSentences g"
        by (simp add: goodGroup_def solid_joinSentences solid_trim)
      then have step: "buildLoop S (sentence # rest) (map joinSentences gs, joinSentences g)
        = buildLoop S rest (map joinSentences (gs @ [g]), joinSentences [?t])"
        using True False by simp
      have "\<forall>grp\<in>set (gs @ [g]). goodGroup grp \<and> okGroup S grp" using Cons.prems gg by auto
      moreover have "\<forall>s\<in>set [?t]. solid s" using st by simp
      moreover have "[?t] = [] \<or> okGroup S [?t]" by (simp add: okGroup_def)
      ultimately obtain gs' g' where
        "buildLoop S rest (map joinSentences (gs @ [g]), joinSentences [?t]) = (map joinSentences gs', joinSentences g')"
        "concat gs' @ g' = concat (gs @ [g]) @ [?t] @ fragments rest"
        "\<forall>grp\<in>set gs'. goodGroup grp \<and> okGroup S grp" "\<forall>s\<in>set g'. solid s" "g' = [] \<or> okGroup S g'"
        using Cons.IH[of "gs @ [g]" "[?t]"] by blast
      then show ?thesis using step fr by auto
    next
      case nosplit: False
      have jn: "joinSentences g @ (if length (joinSentences g) > 0 then sep else []) @ ?t = joinSentences (g @ [?t])"
      proof (cases "g = []")
        case True then show ?thesis by simp
      next
        case False
        moreover from False Cons.prems have "joinSentences g \<noteq> []"
          by (simp add: joinSentences_Nil_iff)
        ultimately show ?thesis by (simp add: joinSentences_snoc)
      qed
      have "buildLoop S (sentence # rest) (map joinSentences gs, joinSentences g)
        = buildLoop S rest (map joinSentences gs,
            joinSentences g @ (if length (joinSentences g) > 0 then sep else []) @ ?t)"
        using nosplit False by (auto simp: Let_def)
      then have step: "buildLoop S (sentence # rest) (map joinSentences gs, joinSentences g)
        = buildLoop S rest (map joinSentences gs, joinSentences (g @ [?t]))"
        by (simp only: jn)
      have ok: "okGroup S (g @ [?t])"
      proof (cases "g = []")
        case True then show ?thesis by (simp add: okGroup_def)
      next
        case gne: False
        with Cons.prems have "joinSentences g \<noteq> []" by (simp add: joinSentences_Nil_iff)
        with nosplit have "\<not> js_gt (length (joinSentences g) + length ?t) S" by simp
        moreover have "length (joinSentences (g @ [?t])) = (length (joinSentences g) + length ?t) + 2"
          using gne by (simp add: joinSentences_snoc length_sep)
        ultimately show ?thesis unfolding okGroup_def by blast
      qed
      have "\<forall>s\<in>set (g @ [?t]). solid s" using Cons.prems st by auto
      with ok Cons.prems obtain gs' g' where
        "buildLoop S rest (map joinSentences gs, joinSentences (g @ [?t])) = (map joinSentences gs', joinSentences g')"
        "concat gs' @ g' = concat gs @ (g @ [?t]) @ fragments rest"
        "\<forall>grp\<in>set gs'. goodGroup grp \<and> okGroup S grp" "\<forall>s\<in>set g'. solid s" "g' = [] \<or> okGroup S g'"
        using Cons.IH[of gs "g @ [?t]"] by blast
      then show ?thesis using step fr by auto
    qed
  qed
qed

lemma buildChunks_groups:
  "\<exists>gs. buildChunks ss S = map joinSentences gs \<and> concat gs = fragments ss
        \<and> (\<forall>grp\<in>set gs. goodGroup grp \<and> okGroup S grp)"
proof -
  obtain gs' g' where r: "buildLoop S ss ([], []) = (map joinSentences gs', joinSentences g')"
    and c: "concat gs' @ g' = fragments ss"
    and i: "\<forall>grp\<in>set gs'. goodGroup grp \<and> okGroup S grp" "\<forall>s\<in>set g'. solid s" "g' = [] \<or> okGroup S g'"
    using buildLoop_groups[of "[]" S "[]" ss] by auto
  show ?thesis
  proof (cases "g' = []")
    case True
    then have "buildChunks ss S = map joinSentences gs'"
      by (simp add: buildChunks_def r trim_def)
    with c i True show ?thesis by auto
  next
    case False
    with i have s: "solid (joinSentences g')" by (simp add: solid_joinSentences)
    then have "trim (joinSentences g') = joinSentences g'" by (rule solid_trim)
    moreover from s have "joinSentences g' \<noteq> []" by (simp add: solid_def)
    ultimately have "buildChunks ss S = map joinSentences (gs' @ [g'])"
      by (simp add: buildChunks_def r)
    moreover have "concat (gs' @ [g']) = fragments ss" using c by simp
    moreover have "\<forall>grp\<in>set (gs' @ [g']). goodGroup grp \<and> okGroup S grp"
      using i False by (auto simp: goodGroup_def)
    ultimately show ?thesis by blast
  qed
qed

section \<open>The merger concatenates consecutive groups\<close>

lemma goodGroup_join_nonempty: "goodGroup g \<Longrightarrow> joinSentences g \<noteq> []"
  by (simp add: goodGroup_def joinSentences_Nil_iff)

lemma goodGroup_append: "goodGroup g \<Longrightarrow> goodGroup h \<Longrightarrow> goodGroup (g @ h)"
  by (auto simp: goodGroup_def)

lemma mergeLoop_groups:
  assumes "\<forall>grp\<in>set gs. goodGroup grp" and "\<forall>grp\<in>set ms. goodGroup grp"
    and "m = [] \<or> goodGroup m"
  shows "\<exists>ms' m'. mergeLoop (map joinSentences gs) (map joinSentences ms, joinSentences m)
              = (map joinSentences ms', joinSentences m')
           \<and> concat ms' @ m' = concat ms @ m @ concat gs
           \<and> (\<forall>grp\<in>set ms'. goodGroup grp) \<and> (m' = [] \<or> goodGroup m')"
  using assms
proof (induction gs arbitrary: ms m)
  case Nil
  then show ?case by auto
next
  case (Cons grp rest)
  then have gg: "goodGroup grp" and rest: "\<forall>grp\<in>set rest. goodGroup grp" by auto
  let ?c = "joinSentences grp" and ?t = "joinSentences m"
  show ?case
  proof (cases "length ?t + length ?c < 100 \<and> length ?t > 0")
    case True
    then have mne: "m \<noteq> []" by auto
    with Cons.prems have gm: "goodGroup m" by simp
    have "?t @ sep @ ?c = joinSentences (m @ grp)"
      using mne gg by (simp add: joinSentences_append goodGroup_def)
    then have step: "mergeLoop (map joinSentences (grp # rest)) (map joinSentences ms, ?t)
        = mergeLoop (map joinSentences rest) (map joinSentences ms, joinSentences (m @ grp))"
      using True by simp
    have "m @ grp = [] \<or> goodGroup (m @ grp)" using gm gg by (simp add: goodGroup_append)
    with rest Cons.prems(2) obtain ms' m' where
      "mergeLoop (map joinSentences rest) (map joinSentences ms, joinSentences (m @ grp))
          = (map joinSentences ms', joinSentences m')"
      "concat ms' @ m' = concat ms @ (m @ grp) @ concat rest"
      "\<forall>grp\<in>set ms'. goodGroup grp" "m' = [] \<or> goodGroup m'"
      using Cons.IH[of ms "m @ grp"] by blast
    then show ?thesis using step by auto
  next
    case False
    show ?thesis
    proof (cases "m = []")
      case True
      then have step: "mergeLoop (map joinSentences (grp # rest)) (map joinSentences ms, ?t)
        = mergeLoop (map joinSentences rest) (map joinSentences ms, ?c)"
        by simp
      from rest Cons.prems(2) gg obtain ms' m' where
        "mergeLoop (map joinSentences rest) (map joinSentences ms, ?c)
            = (map joinSentences ms', joinSentences m')"
        "concat ms' @ m' = concat ms @ grp @ concat rest"
        "\<forall>grp\<in>set ms'. goodGroup grp" "m' = [] \<or> goodGroup m'"
        using Cons.IH[of ms grp] by blast
      then show ?thesis using step True by auto
    next
      case mne: False
      with Cons.prems have gm: "goodGroup m" by simp
      then have "?t \<noteq> []" by (rule goodGroup_join_nonempty)
      then have step: "mergeLoop (map joinSentences (grp # rest)) (map joinSentences ms, ?t)
        = mergeLoop (map joinSentences rest) (map joinSentences (ms @ [m]), ?c)"
        using False by auto
      have "\<forall>grp\<in>set (ms @ [m]). goodGroup grp" using Cons.prems(2) gm by auto
      with rest gg obtain ms' m' where
        "mergeLoop (map joinSentences rest) (map joinSentences (ms @ [m]), ?c)
            = (map joinSentences ms', joinSentences m')"
        "concat ms' @ m' = concat (ms @ [m]) @ grp @ concat rest"
        "\<forall>grp\<in>set ms'. goodGroup grp" "m' = [] \<or> goodGroup m'"
        using Cons.IH[of "ms @ [m]" grp] by blast
      then show ?thesis using step by auto
    qed
  qed
qed

lemma mergeChunks_groups:
  assumes "\<forall>grp\<in>set gs. goodGroup grp"
  shows "\<exists>ms. mergeChunks (map joinSentences gs) = map joinSentences ms
           \<and> concat ms = concat gs \<and> (\<forall>grp\<in>set ms. goodGroup grp)"
proof -
  obtain ms' m' where r: "mergeLoop (map joinSentences gs) ([], []) = (map joinSentences ms', joinSentences m')"
    and c: "concat ms' @ m' = concat gs"
    and i: "\<forall>grp\<in>set ms'. goodGroup grp" "m' = [] \<or> goodGroup m'"
    using mergeLoop_groups[OF assms, of "[]" "[]"] by auto
  show ?thesis
  proof (cases "m' = []")
    case True
    then have "mergeChunks (map joinSentences gs) = map joinSentences ms'"
      by (simp add: mergeChunks_def r)
    with c i True show ?thesis by auto
  next
    case False
    with i have g: "goodGroup m'" by simp
    then have "joinSentences m' \<noteq> []" by (rule goodGroup_join_nonempty)
    then have "mergeChunks (map joinSentences gs) = map joinSentences (ms' @ [m'])"
      by (simp add: mergeChunks_def r)
    moreover have "concat (ms' @ [m']) = concat gs" using c by simp
    moreover have "\<forall>grp\<in>set (ms' @ [m']). goodGroup grp" using i g by auto
    ultimately show ?thesis by blast
  qed
qed

lemma fragments_sentences: "fragments (sentences text) = map trim (sentences text)"
  unfolding fragments_def sentences_def
  by (rule filter_True) auto

lemma pipeline_groups:
  "\<exists>gs. mergeChunks (buildChunks (sentences text) S) = map joinSentences gs
        \<and> concat gs = map trim (sentences text) \<and> (\<forall>grp\<in>set gs. goodGroup grp)"
proof -
  obtain bs where b: "buildChunks (sentences text) S = map joinSentences bs"
    "concat bs = fragments (sentences text)" "\<forall>grp\<in>set bs. goodGroup grp \<and> okGroup S grp"
    using buildChunks_groups by blast
  then have "\<forall>grp\<in>set bs. goodGroup grp" by simp
  from mergeChunks_groups[OF this] b show ?thesis
    by (auto simp: fragments_sentences)
qed

section \<open>Segmenting a chunk again returns its fragments\<close>

lemma splitLoop_noDelim:
  "noDelim frag \<Longrightarrow> \<forall>f\<in>set (splitLoop frag cs). noDelim f"
proof (induction frag cs rule: splitLoop.induct)
  case (1 frag)
  then show ?case by simp
next
  case (2 frag c cs)
  show ?case
  proof (cases "isDelim c")
    case True
    have "noDelim []" by (simp add: noDelim_def)
    with True "2.IH"(1) have "\<forall>f\<in>set (splitLoop [] (dropWhile isDelim cs)). noDelim f" by simp
    with True "2.prems" show ?thesis by simp
  next
    case False
    with "2.prems" have "noDelim (frag @ [c])" by (simp add: noDelim_def)
    with False "2.IH"(2) have "\<forall>f\<in>set (splitLoop (frag @ [c]) cs). noDelim f" by simp
    with False show ?thesis by simp
  qed
qed

lemma set_trim: "set (trim s) \<subseteq> set s"
proof -
  have "set (dropWhile isWhiteSpace (rev (dropWhile isWhiteSpace s))) \<subseteq> set (rev (dropWhile isWhiteSpace s))"
    by (auto dest: set_dropWhileD)
  also have "\<dots> \<subseteq> set s" by (auto dest: set_dropWhileD)
  finally show ?thesis by (simp add: trim_def)
qed

lemma noDelim_fragments: "\<forall>s\<in>set (map trim (sentences text)). noDelim s"
proof -
  have "\<forall>f\<in>set (split text). noDelim f"
    unfolding split_def by (rule splitLoop_noDelim) (simp add: noDelim_def)
  then have "\<forall>f\<in>set (sentences text). noDelim f" by (simp add: sentences_def)
  then show ?thesis using set_trim by (fastforce simp: noDelim_def)
qed

lemma splitLoop_append_noDelim:
  "noDelim s \<Longrightarrow> splitLoop frag (s @ rest) = splitLoop (frag @ s) rest"
  by (induction s arbitrary: frag) (auto simp: noDelim_def)

lemma trim_space_Cons: "trim (0x20 # s) = trim s"
  by (simp add: trim_def isWhiteSpace_def)

lemma isDelim_dot: "isDelim 0x2E"
  by (simp add: isDelim_def)

lemma not_isDelim_space: "\<not> isDelim 0x20"
  by (simp add: isDelim_def)

lemma splitLoop_joinSentences:
  assumes "g \<noteq> []" and "\<forall>s\<in>set g. solid s \<and> noDelim s" and "frag = [] \<or> frag = [0x20]"
  shows "map trim (filter (\<lambda>s. length (trim s) > 0) (splitLoop frag (joinSentences g))) = g"
  using assms
proof (induction g arbitrary: frag rule: joinSentences.induct)
  case 1
  then show ?case by simp
next
  case (2 s)
  then have s: "solid s" "noDelim s" by auto
  have "splitLoop frag s = [frag @ s]"
    using splitLoop_append_noDelim[OF s(2), of frag "[]"] by simp
  moreover have "trim (frag @ s) = s"
    using 2(3) s(1) by (auto simp: trim_space_Cons solid_trim)
  moreover have "s \<noteq> []" using s(1) by (simp add: solid_def)
  ultimately show ?case by simp
next
  case (3 s t ts)
  then have s: "solid s" "noDelim s" by auto
  have "splitLoop frag (joinSentences (s # t # ts))
      = splitLoop (frag @ s) (0x2E # 0x20 # joinSentences (t # ts))"
    using splitLoop_append_noDelim[OF s(2)] by (simp add: sep_eq)
  also have "\<dots> = (frag @ s) # splitLoop [0x20] (joinSentences (t # ts))"
    by (simp add: isDelim_dot not_isDelim_space)
  finally have sp: "splitLoop frag (joinSentences (s # t # ts))
      = (frag @ s) # splitLoop [0x20] (joinSentences (t # ts))" .
  have tr: "trim (frag @ s) = s"
    using 3(4) s(1) by (auto simp: trim_space_Cons solid_trim)
  have sne: "s \<noteq> []" using s(1) by (simp add: solid_def)
  have "map trim (filter (\<lambda>s. length (trim s) > 0) (splitLoop [0x20] (joinSentences (t # ts)))) = t # ts"
    using 3 by (intro "3.IH") auto
  then show ?case using tr sne by (simp add: sp del: joinSentences.simps)
qed

lemma sentences_joinSentences:
  "g \<noteq> [] \<Longrightarrow> \<forall>s\<in>set g. solid s \<and> noDelim s \<Longrightarrow> map trim (sentences (joinSentences g)) = g"
  using splitLoop_joinSentences[of g "[]"] by (simp add: sentences_def split_def)

lemma resegment_chunks:
  assumes "\<forall>grp\<in>set gs. goodGroup grp \<and> (\<forall>s\<in>set grp. noDelim s)"
  shows "concat (map (\<lambda>c. map trim (sentences c)) (map joinSentences gs)) = concat gs"
  using assms
proof (induction gs)
  case Nil then show ?case by simp
next
  case (Cons grp gs)
  then have "map trim (sentences (joinSentences grp)) = grp"
    by (intro sentences_joinSentences) (auto simp: goodGroup_def)
  with Cons show ?case by simp
qed

section \<open>The merger of the code and the merger of the specification\<close>

lemma mergeLoop_foldl: "mergeLoop chunks st = foldl (spec_mergeStep 100) st chunks"
proof (induction chunks arbitrary: st)
  case Nil then show ?case by simp
next
  case (Cons c cs)
  obtain merged temp where st: "st = (merged, temp)" by (cases st)
  have "real (length temp + length c) < 100 \<longleftrightarrow> length temp + length c < 100"
    by linarith
  then show ?case using Cons.IH by (simp add: st spec_mergeStep_def)
qed

lemma mergeChunks_spec: "mergeChunks chunks = spec_mergeChunks 100 chunks"
  by (simp add: mergeChunks_def spec_mergeChunks_def mergeLoop_foldl)

section \<open>Scores of the keyword fallback\<close>

lemma length_mapIndexed: "length (mapIndexed k items) = length items"
  by (induction items arbitrary: k) auto

lemma nth_mapIndexed: "i < length items \<Longrightarrow> mapIndexed k items ! i = toResult (items ! i) (k + i)"
proof (induction items arbitrary: k i)
  case Nil then show ?case by simp
next
  case (Cons a items)
  then show ?case by (cases i) auto
qed

lemma map_score_mapIndexed:
  "length xs = length ys \<Longrightarrow> map score (mapIndexed k xs) = map score (mapIndexed k ys)"
  by (induction xs ys arbitrary: k rule: list_induct2) (simp_all add: toResult_def)

section \<open>The claims about the chunking pipeline\<close>

text \<open>
  C1. Claimed: with the default configuration (target size 500, minimum viable length 100)
  no chunk of the final sequence other than the first is shorter than 100 characters,
  unless it is the only chunk. The comment above the second loop says the same:
  "Ensure minimum chunk size and merge small chunks". The loop does not do it: it merges a
  chunk into the pending one only when the two together are shorter than 100, so a short
  chunk that follows a long one stays as it is. For a sentence of 500 letters followed by
  the sentence "b" the result has two chunks and the second one has length 1.
\<close>

theorem chunkText_short_trailing_chunk:
  "chunkText (replicate 500 0x61 @ ascii ''.b'') defaultChunkSize = [replicate 500 0x61, ascii ''b'']
   \<and> length (chunkText (replicate 500 0x61 @ ascii ''.b'') defaultChunkSize) = 2
   \<and> length (chunkText (replicate 500 0x61 @ ascii ''.b'') defaultChunkSize ! 1) < 100"
  by code_simp

text \<open>
  C2, as claimed: the merge threshold is derived from the chunk size passed by the caller
  (the ratio 100/500), so it varies with the chunk size. This fails: at chunk size 5 the
  derived threshold is 1 and would merge nothing, while the code merges the two provisional
  chunks, whose lengths add up to 8, because it compares with the literal 100.
\<close>

theorem chunkText_threshold_not_derived:
  "chunkText (ascii ''ab. cd. ef'') (Num 5) = [ascii ''ab. cd. ef'']
   \<and> spec_chunkText (spec_mergeThreshold 5) (ascii ''ab. cd. ef'') (Num 5)
       = [ascii ''ab. cd'', ascii ''ef'']
   \<and> chunkText (ascii ''ab. cd. ef'') (Num 5)
       \<noteq> spec_chunkText (spec_mergeThreshold 5) (ascii ''ab. cd. ef'') (Num 5)"
  by code_simp

text \<open>
  C2, amended: the chunk size controls the soft upper bound of the builder only. The
  merge threshold is the constant 100 for every chunk size: for every text and every chunk
  size the code computes what the merger of the specification computes with \<open>M = 100\<close>.
\<close>

theorem chunkText_merge_threshold_constant:
  "chunkText text chunkSize = spec_chunkText 100 text chunkSize"
  by (simp add: chunkText_def spec_chunkText_def mergeChunks_spec Let_def)

text \<open>
  C3, as claimed: every provisional chunk is at most as long as the target size plus the
  length of one sentence it contains. This fails, because the size test does not count the
  two characters of the separator: for "a. b" and target size 2 the builder emits the chunk
  "a. b" of length 4, and each of its sentences has length 1.
\<close>

theorem buildChunks_exceeds_one_sentence:
  "buildChunks (sentences (ascii ''a. b'')) (Num 2) = [ascii ''a. b'']
   \<and> map trim (sentences (ascii ''a. b'')) = [ascii ''a'', ascii ''b'']
   \<and> \<not> real (length (ascii ''a. b'')) \<le> 2 + real (length (ascii ''a''))
   \<and> \<not> real (length (ascii ''a. b'')) \<le> 2 + real (length (ascii ''b''))"
  by code_simp

text \<open>
  C3, amended: for every text and every finite target size \<open>S\<close>, every chunk the builder
  emits is either one whole trimmed sentence, of whatever length, or at most \<open>S + 2\<close> long,
  the 2 being the injected separator. Content is never truncated: the provisional chunks
  are the joins of non-empty runs of consecutive trimmed sentences, all of them, in order.
\<close>

theorem buildChunks_soft_bound:
  "(\<forall>c\<in>set (buildChunks (sentences text) (Num r)).
       c \<in> set (map trim (sentences text)) \<or> real (length c) \<le> r + 2)
   \<and> (\<exists>gs. [] \<notin> set gs \<and> concat gs = map trim (sentences text)
          \<and> buildChunks (sentences text) (Num r) = map joinSentences gs)"
proof -
  obtain gs where g: "buildChunks (sentences text) (Num r) = map joinSentences gs"
    "concat gs = fragments (sentences text)" "\<forall>grp\<in>set gs. goodGroup grp \<and> okGroup (Num r) grp"
    using buildChunks_groups by blast
  have c: "concat gs = map trim (sentences text)" using g(2) by (simp add: fragments_sentences)
  have "c \<in> set (map trim (sentences text)) \<or> real (length c) \<le> r + 2"
    if "c \<in> set (buildChunks (sentences text) (Num r))" for c
  proof -
    from that g(1) obtain grp where grp: "grp \<in> set gs" "c = joinSentences grp" by auto
    with g(3) have "okGroup (Num r) grp" by simp
    then consider (one) "length grp = 1" | (many) n where "length c = n + 2" "\<not> real n > r"
      unfolding okGroup_def grp(2) by auto
    then show ?thesis
    proof cases
      case one
      then obtain s where "grp = [s]" by (cases grp) auto
      with grp have "c \<in> set (concat gs)" by force
      then show ?thesis using c by simp
    next
      case many
      then show ?thesis by simp
    qed
  qed
  moreover have "[] \<notin> set gs" using g(3) by (auto simp: goodGroup_def)
  ultimately show ?thesis using c g(1) by blast
qed

text \<open>
  The bound at work: the chunk "a. b" built with target size 2 is not a single sentence,
  so it is at most \<open>2 + 2\<close> long.
\<close>

theorem buildChunks_soft_bound_witness:
  "ascii ''a. b'' \<in> set (buildChunks (sentences (ascii ''a. b'')) (Num 2))
   \<and> real (length (ascii ''a. b'')) \<le> 2 + 2"
proof -
  have m: "ascii ''a. b'' \<in> set (buildChunks (sentences (ascii ''a. b'')) (Num 2))"
    by code_simp
  have n: "ascii ''a. b'' \<notin> set (map trim (sentences (ascii ''a. b'')))"
    by code_simp
  from buildChunks_soft_bound[of "ascii ''a. b''" 2] m n
  have "real (length (ascii ''a. b'')) \<le> 2 + 2" by blast
  with m show ?thesis by simp
qed

text \<open>
  C4. For every text with at least one extractable sentence, the final chunks are the
  joins of non-empty runs of consecutive trimmed fragments, and these runs laid end to end
  are exactly the fragments the segmenter produced, in document order. Said with the
  separators removed: segmenting every final chunk again and concatenating the results
  gives back the trimmed fragments of the text, none lost, duplicated or reordered.
\<close>

theorem chunkText_preserves_fragments:
  assumes "sentences text \<noteq> []"
  shows "(\<exists>gs. [] \<notin> set gs \<and> concat gs = map trim (sentences text)
              \<and> chunkText text chunkSize = map joinSentences gs)
       \<and> concat (map (\<lambda>chunk. map trim (sentences chunk)) (chunkText text chunkSize))
           = map trim (sentences text)"
proof -
  obtain gs where g: "mergeChunks (buildChunks (sentences text) chunkSize) = map joinSentences gs"
    "concat gs = map trim (sentences text)" "\<forall>grp\<in>set gs. goodGroup grp"
    using pipeline_groups by blast
  with assms have "gs \<noteq> []" by auto
  then have ct: "chunkText text chunkSize = map joinSentences gs"
    by (simp add: chunkText_def g(1))
  have ne: "[] \<notin> set gs" using g(3) by (auto simp: goodGroup_def)
  have "\<forall>grp\<in>set gs. \<forall>s\<in>set grp. s \<in> set (concat gs)" by auto
  then have "\<forall>grp\<in>set gs. \<forall>s\<in>set grp. noDelim s"
    using noDelim_fragments[of "text"] unfolding g(2) by blast
  with g(3) have "concat (map (\<lambda>c. map trim (sentences c)) (map joinSentences gs)) = concat gs"
    by (intro resegment_chunks) auto
  then show ?thesis using ct ne g(2) by auto
qed

theorem chunkText_preserves_fragments_witness:
  "sentences (ascii ''A. B. C.'') \<noteq> []
   \<and> concat (map (\<lambda>chunk. map trim (sentences chunk)) (chunkText (ascii ''A. B. C.'') (Num 500)))
       = [ascii ''A'', ascii ''B'', ascii ''C'']"
proof -
  have s: "sentences (ascii ''A. B. C.'') \<noteq> []" by code_simp
  have t: "map trim (sentences (ascii ''A. B. C.'')) = [ascii ''A'', ascii ''B'', ascii ''C'']"
    by code_simp
  show ?thesis using s chunkText_preserves_fragments[OF s, of "Num 500"] unfolding t by simp
qed

text \<open>
  C6. For every text and every chunk size the returned sequence has at least one chunk:
  when the merger leaves nothing, the fallback returns a singleton.
\<close>

theorem chunkText_nonempty:
  "chunkText text chunkSize \<noteq> [] \<and> 1 \<le> length (chunkText text chunkSize)"
  by (simp add: chunkText_def Let_def Suc_le_eq)

text \<open>
  C7. The text "A. B. C." with chunk size 500 gives the single chunk "A. B. C": the
  sentences trimmed and joined, the trailing delimiter gone.
\<close>

theorem chunkText_example_ABC:
  "chunkText (ascii ''A. B. C.'') (Num 500) = [ascii ''A. B. C'']"
  by code_simp

text \<open>
  C8. The empty text gives exactly one chunk, the empty string. It comes from the
  fallback: no sentence is extracted, the merger leaves nothing, and the first 500
  characters of the empty text are the empty string.
\<close>

theorem chunkText_empty_text:
  "chunkText [] (Num 500) = [[]]
   \<and> sentences [] = []
   \<and> mergeChunks (buildChunks (sentences []) (Num 500)) = []
   \<and> substring0 [] (Num 500) = []"
  by code_simp


section \<open>The claims about the keyword fallback\<close>




text \<open>
  C10. The scores depend on the positions only: for any two queries, two databases and
  two limits, when the matched lists have the same length the two score sequences are
  equal; and every result carries the content, the document id and the chunk index of the
  item at its position.
\<close>

theorem fallback_scores_positional:
  assumes "db1 (ascii ''*'' @ query1 @ ascii ''*'') limit1 = Matches items1"
    and "db2 (ascii ''*'' @ query2 @ ascii ''*'') limit2 = Matches items2"
    and "length items1 = length items2"
  shows "\<exists>results1 results2.
           fallbackKeywordSearch (Some db1) query1 limit1 = Inr results1
         \<and> fallbackKeywordSearch (Some db2) query2 limit2 = Inr results2
         \<and> map score results1 = map score results2
         \<and> length results1 = length items1
         \<and> (\<forall>i<length items1.
               content (results1 ! i) = item_content (items1 ! i)
             \<and> documentId (results1 ! i) = item_documentId (items1 ! i)
             \<and> chunkIndex (results1 ! i) = item_chunkIndex (items1 ! i))"
proof -
  have "fallbackKeywordSearch (Some db1) query1 limit1 = Inr (mapIndexed 0 items1)"
    using assms(1) by (simp add: fallbackKeywordSearch_def)
  moreover have "fallbackKeywordSearch (Some db2) query2 limit2 = Inr (mapIndexed 0 items2)"
    using assms(2) by (simp add: fallbackKeywordSearch_def)
  moreover have "map score (mapIndexed 0 items1) = map score (mapIndexed 0 items2)"
    using assms(3) by (rule map_score_mapIndexed)
  moreover have "\<forall>i<length items1.
               content (mapIndexed 0 items1 ! i) = item_content (items1 ! i)
             \<and> documentId (mapIndexed 0 items1 ! i) = item_documentId (items1 ! i)
             \<and> chunkIndex (mapIndexed 0 items1 ! i) = item_chunkIndex (items1 ! i)"
    by (simp add: nth_mapIndexed toResult_def)
  ultimately show ?thesis by (simp add: length_mapIndexed)
qed

theorem fallback_scores_positional_witness:
  "(\<lambda>pattern limit. Matches [item0, item1]) (ascii ''*'' @ ascii ''cat'' @ ascii ''*'') (Num 10)
      = Matches [item0, item1]
   \<and> (\<lambda>pattern limit. Matches [item1, item1]) (ascii ''*'' @ ascii ''dog'' @ ascii ''*'') (Num 5)
      = Matches [item1, item1]
   \<and> length [item0, item1] = length [item1, item1]
   \<and> (\<exists>results1 results2.
         fallbackKeywordSearch (Some (\<lambda>pattern limit. Matches [item0, item1])) (ascii ''cat'') (Num 10)
           = Inr results1
       \<and> fallbackKeywordSearch (Some (\<lambda>pattern limit. Matches [item1, item1])) (ascii ''dog'') (Num 5)
           = Inr results2
       \<and> map score results1 = map score results2
       \<and> content (results1 ! 0) = item_content item0)"
  using fallback_scores_positional[of "\<lambda>pattern limit. Matches [item0, item1]" "ascii ''cat''" "Num 10"
          "[item0, item1]" "\<lambda>pattern limit. Matches [item1, item1]" "ascii ''dog''" "Num 5"
          "[item1, item1]"]
  by auto

end
